theory Spec2Isabelle
  imports Main "HOL-Library.AList" "HOL-Library.Sublist"
begin

section \<open>The chat relay of server.go\<close>

text \<open>
  The server keeps three fields behind one mutex: the history \<open>msgs\<close> (a Go slice of
  strings), the registry \<open>clients\<close> (a Go map from client id to an RPC client handle) and
  the buffered channel \<open>broadcast\<close>. Four RPC methods and two kinds of goroutine (the
  broadcaster and one delivery goroutine per recipient and message) act on them.

  The model is a transition system. Every stretch of code that runs between
  \<open>c.mu.Lock()\<close> and \<open>c.mu.Unlock()\<close> is one atomic step; the channel send that follows
  the critical section of Register, Unregister and Send is a step of its own, enabled
  only while the channel buffer has room, so that a full buffer blocks the caller.
  What the environment decides (whether a dial or a delivery call succeeds, which
  goroutine runs next) is the label of the step.
\<close>

subsection \<open>Request and reply types\<close>

record MessageArgs =
  Sender :: string
  Text :: string

record RegisterArgs =
  ID :: string
  Addr :: string

subsection \<open>Go slices over an explicit store\<close>

text \<open>
  A Go slice is a header (backing array, length, capacity); two slices alias when they
  share the backing array. The store is the list of all arrays allocated so far, an
  address is an index into it, and the nil slice has no array. No slice of the server is
  ever re-sliced, so every header starts at offset 0 of its array.
\<close>

record slice =
  arr :: "nat option"
  len :: nat
  cap :: nat

type_synonym store = "string list list"

definition nil_slice :: slice where
  "nil_slice = \<lparr>arr = None, len = 0, cap = 0\<rparr>"

definition elems :: "store \<Rightarrow> slice \<Rightarrow> string list" where
  "elems h sl = (case arr sl of None \<Rightarrow> [] | Some a \<Rightarrow> take (len sl) (h ! a))"

text \<open>
  The capacity that the runtime picks when \<open>append\<close> has to reallocate is not fixed by
  the language; it is the parameter \<open>g\<close> (old capacity, needed length) of the model, and
  never less than the needed length.
\<close>

type_synonym growth = "nat \<Rightarrow> nat \<Rightarrow> nat"

definition alloc :: "growth \<Rightarrow> store \<Rightarrow> nat \<Rightarrow> string list \<Rightarrow> store \<times> slice" where
  "alloc g h oldcap xs =
     (let n = length xs; c = max n (g oldcap n)
      in (h @ [xs @ replicate (c - n) []], \<lparr>arr = Some (length h), len = n, cap = c\<rparr>))"

text \<open>\<open>append(sl, x)\<close>: in place when the capacity allows, into a fresh array otherwise.\<close>

definition append1 :: "growth \<Rightarrow> store \<Rightarrow> slice \<Rightarrow> string \<Rightarrow> store \<times> slice" where
  "append1 g h sl x =
     (case arr sl of
        Some a \<Rightarrow>
          if len sl < cap sl
          then (h[a := (h ! a)[len sl := x]], sl\<lparr>len := len sl + 1\<rparr>)
          else alloc g h (cap sl) (elems h sl @ [x])
      | None \<Rightarrow> alloc g h (cap sl) (elems h sl @ [x]))"

text \<open>\<open>append([]string(nil), src...)\<close>: nil when there is nothing to copy, a fresh array otherwise.\<close>

definition append_nil :: "growth \<Rightarrow> store \<Rightarrow> slice \<Rightarrow> store \<times> slice" where
  "append_nil g h src =
     (if len src = 0 then (h, nil_slice) else alloc g h 0 (elems h src))"

subsection \<open>The server and its goroutines\<close>

datatype error = DialError string string

datatype reply = Error error | Empty | HistoryReply slice

type_synonym task = "string \<times> nat \<times> MessageArgs"

text \<open>
  \<open>msgs\<close>, \<open>clients\<close> and \<open>broadcast\<close> are the fields of the struct. An RPC client handle
  is the number of the dial that made it. \<open>closed\<close> logs the calls of \<open>cli.Close()\<close>,
  \<open>cur\<close> is the broadcaster's \<open>msg\<close> between its receive and its registry snapshot,
  \<open>tasks\<close> are the delivery goroutines that have not finished, \<open>attempts\<close> logs the
  finished delivery calls with their outcome, \<open>pending\<close> are the RPC methods that have
  left their critical section and stand at the channel send (with the message and the
  reply they will return), and \<open>returned\<close> logs what the methods returned.
\<close>

record ChatServer =
  msgs :: slice
  clients :: "(string \<times> nat) list"
  broadcast :: "MessageArgs list"
  store :: store
  dialed :: nat
  closed :: "nat list"
  cur :: "MessageArgs option"
  tasks :: "task list"
  attempts :: "(task \<times> bool) list"
  pending :: "(MessageArgs \<times> reply) list"
  returned :: "reply list"

definition broadcast_cap :: nat where
  "broadcast_cap = 100"

definition NewChatServer :: ChatServer where
  "NewChatServer =
     \<lparr>msgs = nil_slice, clients = [], broadcast = [], store = [], dialed = 0, closed = [],
      cur = None, tasks = [], attempts = [], pending = [], returned = []\<rparr>"

definition history :: "ChatServer \<Rightarrow> string list" where
  "history s = elems (store s) (msgs s)"

definition append_msg :: "growth \<Rightarrow> string \<Rightarrow> ChatServer \<Rightarrow> ChatServer" where
  "append_msg g e s =
     (let (h, m) = append1 g (store s) (msgs s) e in s\<lparr>store := h, msgs := m\<rparr>)"

definition snapshot_msgs :: "growth \<Rightarrow> ChatServer \<Rightarrow> slice \<times> ChatServer" where
  "snapshot_msgs g s =
     (let (h, r) = append_nil g (store s) (msgs s) in (r, s\<lparr>store := h\<rparr>))"

definition Register :: "growth \<Rightarrow> RegisterArgs \<Rightarrow> bool \<Rightarrow> ChatServer \<Rightarrow> ChatServer" where
  "Register g args dial_ok s =
     (if \<not> dial_ok
      then s\<lparr>returned := returned s @ [Error (DialError (ID args) (Addr args))]\<rparr>
      else
        let cli = dialed s;
            s1 = s\<lparr>dialed := Suc cli, clients := AList.update (ID args) cli (clients s)\<rparr>;
            joinMsg = ''User '' @ ID args @ '' joined'';
            s2 = append_msg g joinMsg s1
        in s2\<lparr>pending := pending s2 @ [(\<lparr>Sender = ID args, Text = joinMsg\<rparr>, Empty)]\<rparr>)"

definition Unregister :: "growth \<Rightarrow> RegisterArgs \<Rightarrow> ChatServer \<Rightarrow> ChatServer" where
  "Unregister g args s =
     (let s1 = (case map_of (clients s) (ID args) of
                  Some cli \<Rightarrow>
                    s\<lparr>closed := closed s @ [cli], clients := AList.delete (ID args) (clients s)\<rparr>
                | None \<Rightarrow> s);
          leaveMsg = ''User '' @ ID args @ '' left'';
          s2 = append_msg g leaveMsg s1
      in s2\<lparr>pending := pending s2 @ [(\<lparr>Sender = ID args, Text = leaveMsg\<rparr>, Empty)]\<rparr>)"

definition Send :: "growth \<Rightarrow> MessageArgs \<Rightarrow> ChatServer \<Rightarrow> slice \<times> ChatServer" where
  "Send g args s =
     (let entry = Sender args @ '': '' @ Text args;
          s1 = append_msg g entry s;
          (r, s2) = snapshot_msgs g s1
      in (r, s2\<lparr>pending := pending s2 @ [(args, HistoryReply r)]\<rparr>))"

definition History :: "growth \<Rightarrow> ChatServer \<Rightarrow> slice \<times> ChatServer" where
  "History g s =
     (let (r, s1) = snapshot_msgs g s
      in (r, s1\<lparr>returned := returned s1 @ [HistoryReply r]\<rparr>))"

definition remove_nth :: "nat \<Rightarrow> 'a list \<Rightarrow> 'a list" where
  "remove_nth i xs = take i xs @ drop (Suc i) xs"

text \<open>\<open>c.broadcast <- m\<close> followed by \<open>return nil\<close>, for the \<open>i\<close>-th method standing there.\<close>

definition chan_send :: "nat \<Rightarrow> ChatServer \<Rightarrow> ChatServer option" where
  "chan_send i s =
     (if i < length (pending s) \<and> length (broadcast s) < broadcast_cap
      then Some (s\<lparr>broadcast := broadcast s @ [fst (pending s ! i)],
                  pending := remove_nth i (pending s),
                  returned := returned s @ [snd (pending s ! i)]\<rparr>)
      else None)"

text \<open>The broadcaster: \<open>for msg := range c.broadcast\<close> receives the oldest message.\<close>

definition broadcaster_recv :: "ChatServer \<Rightarrow> ChatServer option" where
  "broadcaster_recv s =
     (case cur s of
        Some m \<Rightarrow> None
      | None \<Rightarrow> (case broadcast s of [] \<Rightarrow> None | m # q \<Rightarrow> Some (s\<lparr>broadcast := q, cur := Some m\<rparr>)))"

definition recipients :: "(string \<times> nat) list \<Rightarrow> MessageArgs \<Rightarrow> task list" where
  "recipients snap m =
     map (\<lambda>(cid, cli). (cid, cli, m)) (filter (\<lambda>(cid, cli). cid \<noteq> Sender m) snap)"

text \<open>
  The broadcaster copies the registry under the lock and starts one goroutine for every
  entry of the copy that is not the sender. The loop reads the copy only, so it is one
  step with the snapshot.
\<close>

definition broadcaster_fanout :: "ChatServer \<Rightarrow> ChatServer option" where
  "broadcaster_fanout s =
     (case cur s of
        None \<Rightarrow> None
      | Some m \<Rightarrow> Some (s\<lparr>cur := None, tasks := tasks s @ recipients (clients s) m\<rparr>))"

text \<open>
  The \<open>i\<close>-th delivery goroutine finishes: its call \<open>cli.Call("Client.Receive", m, &reply)\<close>
  succeeded (\<open>ok\<close>) or failed, and on failure it closes \<open>cli\<close> and deletes its key \<open>cid\<close> (the goroutine's \<open>id\<close>) under the lock.
\<close>

definition deliver :: "nat \<Rightarrow> bool \<Rightarrow> ChatServer \<Rightarrow> ChatServer option" where
  "deliver i ok s =
     (if i < length (tasks s)
      then
        (case tasks s ! i of (cid, cli, m) \<Rightarrow>
           let s1 = s\<lparr>tasks := remove_nth i (tasks s),
                      attempts := attempts s @ [((cid, cli, m), ok)]\<rparr>
           in Some (if ok then s1
                    else s1\<lparr>closed := closed s1 @ [cli],
                            clients := AList.delete cid (clients s1)\<rparr>))
      else None)"

subsection \<open>Runs\<close>

datatype event =
    EvRegister RegisterArgs bool
  | EvUnregister RegisterArgs
  | EvSend MessageArgs
  | EvHistory
  | EvChanSend nat
  | EvRecv
  | EvFanout
  | EvDeliver nat bool

fun step :: "growth \<Rightarrow> event \<Rightarrow> ChatServer \<Rightarrow> ChatServer option" where
  "step g (EvRegister args ok) s = Some (Register g args ok s)"
| "step g (EvUnregister args) s = Some (Unregister g args s)"
| "step g (EvSend args) s = Some (snd (Send g args s))"
| "step g EvHistory s = Some (snd (History g s))"
| "step g (EvChanSend i) s = chan_send i s"
| "step g EvRecv s = broadcaster_recv s"
| "step g EvFanout s = broadcaster_fanout s"
| "step g (EvDeliver i ok) s = deliver i ok s"

fun run :: "growth \<Rightarrow> event list \<Rightarrow> ChatServer \<Rightarrow> ChatServer option" where
  "run g [] s = Some s"
| "run g (e # es) s = (case step g e s of None \<Rightarrow> None | Some s' \<Rightarrow> run g es s')"

subsection \<open>Invariants\<close>

text \<open>A slice header is well formed in a store when its array exists and has its capacity.\<close>

definition wf_slice :: "store \<Rightarrow> slice \<Rightarrow> bool" where
  "wf_slice h sl =
     (case arr sl of
        None \<Rightarrow> len sl = 0 \<and> cap sl = 0
      | Some a \<Rightarrow> a < length h \<and> length (h ! a) = cap sl \<and> len sl \<le> cap sl)"

definition wf :: "ChatServer \<Rightarrow> bool" where
  "wf s = wf_slice (store s) (msgs s)"

text \<open>
  From \<open>s\<close> to \<open>s'\<close> the store only grows, every array other than the one behind the
  history slice of \<open>s\<close> keeps its contents, and the history slice stays on its array or
  moves to one allocated since.
\<close>

definition store_ext :: "ChatServer \<Rightarrow> ChatServer \<Rightarrow> bool" where
  "store_ext s s' =
     (length (store s) \<le> length (store s') \<and>
      (\<forall>a<length (store s). arr (msgs s) \<noteq> Some a \<longrightarrow> store s' ! a = store s ! a) \<and>
      (arr (msgs s') = arr (msgs s) \<or> (\<exists>a. arr (msgs s') = Some a \<and> length (store s) \<le> a)))"

text \<open>A slice that is nil, or whose array exists and is not the array of the history slice.\<close>

definition unaliased :: "slice \<Rightarrow> ChatServer \<Rightarrow> bool" where
  "unaliased r s =
     (case arr r of
        None \<Rightarrow> True
      | Some a \<Rightarrow> a < length (store s) \<and> arr (msgs s) \<noteq> Some a)"

text \<open>No delivery goroutine, running or finished, targets the sender of its message.\<close>

definition no_self_echo :: "ChatServer \<Rightarrow> bool" where
  "no_self_echo s =
     ((\<forall>t \<in> set (tasks s). fst t \<noteq> Sender (snd (snd t))) \<and>
      (\<forall>a \<in> set (attempts s). fst (fst a) \<noteq> Sender (snd (snd (fst a)))))"

definition is_error :: "reply \<Rightarrow> bool" where
  "is_error r = (case r of Error e \<Rightarrow> True | _ \<Rightarrow> False)"

text \<open>What holds in every state the server reaches.\<close>

definition server_inv :: "ChatServer \<Rightarrow> bool" where
  "server_inv s =
     (wf s \<and> length (broadcast s) \<le> broadcast_cap \<and> distinct (map fst (clients s)) \<and>
      no_self_echo s \<and> (\<forall>p \<in> set (pending s). \<not> is_error (snd p)))"

text \<open>
  A schedule that lets a method standing at the channel send go on: nothing when the
  buffer has room, otherwise the broadcaster (always able to move) takes one message out.
\<close>

definition drain :: "ChatServer \<Rightarrow> event list" where
  "drain s =
     (if length (broadcast s) < broadcast_cap then []
      else if cur s = None then [EvRecv] else [EvFanout, EvRecv])"

subsection \<open>A concrete run\<close>

text \<open>
  One growth policy and a few requests for concrete runs: Alice registers and that join
  notice is dispatched, then Bob registers and the broadcaster has just received Bob's join
  notice (\<open>joined\<close>, and \<open>bobRegistered\<close> just before that receive); a hundred leave
  notices of an unknown client fill the channel (\<open>flood\<close>); Bob leaves and registers again
  while a delivery goroutine still holds Bob's first endpoint (\<open>bobRejoined\<close>).
\<close>

definition doubling :: growth where
  "doubling oldcap n = 2 * n"

definition Alice :: RegisterArgs where
  "Alice = \<lparr>ID = ''Alice'', Addr = ''addrA''\<rparr>"

definition Bob :: RegisterArgs where
  "Bob = \<lparr>ID = ''Bob'', Addr = ''addrB''\<rparr>"

definition Carol :: RegisterArgs where
  "Carol = \<lparr>ID = ''Carol'', Addr = ''addrC''\<rparr>"

definition hi :: MessageArgs where
  "hi = \<lparr>Sender = ''Alice'', Text = ''hi''\<rparr>"

definition joined :: "event list" where
  "joined = [EvRegister Alice True, EvChanSend 0, EvRecv, EvFanout,
             EvRegister Bob True, EvChanSend 0, EvRecv]"

definition flood :: "event list" where
  "flood = concat (replicate 100 [EvUnregister Carol, EvChanSend 0])"

definition bobJoined :: MessageArgs where
  "bobJoined = \<lparr>Sender = ''Bob'', Text = ''User Bob joined''\<rparr>"

definition aliceJoined :: MessageArgs where
  "aliceJoined = \<lparr>Sender = ''Alice'', Text = ''User Alice joined''\<rparr>"


definition bobRejoined :: "event list" where
  "bobRejoined = [EvRegister Alice True, EvRegister Bob True, EvChanSend 0, EvRecv, EvFanout,
                  EvUnregister Bob, EvRegister Bob True]"

section \<open>Slices and the store\<close>

lemma alloc_props:
  assumes "alloc g h c xs = (h', sl)"
  shows "elems h' sl = xs" "wf_slice h' sl" "arr sl = Some (length h)"
    "length h' = Suc (length h)" "\<forall>a<length h. h' ! a = h ! a"
  using assms by (auto simp: alloc_def Let_def elems_def wf_slice_def nth_append)

lemma append1_props:
  assumes "wf_slice h sl" "append1 g h sl x = (h', sl')"
  shows "elems h' sl' = elems h sl @ [x]" "wf_slice h' sl'" "length h \<le> length h'"
    "\<forall>a<length h. arr sl \<noteq> Some a \<longrightarrow> h' ! a = h ! a"
    "arr sl' = arr sl \<and> arr sl \<noteq> None \<or> arr sl' = Some (length h)"
  using assms
  by (auto simp: append1_def wf_slice_def elems_def take_Suc_conv_app_nth
      dest: alloc_props split: option.splits if_splits)

lemma append_nil_props:
  assumes "wf_slice h src" "append_nil g h src = (h', r)"
  shows "elems h' r = elems h src" "wf_slice h' r" "length h \<le> length h'"
    "\<forall>a<length h. h' ! a = h ! a"
    "arr r = None \<or> arr r = Some (length h)"
  using assms
  by (auto simp: append_nil_def wf_slice_def elems_def nil_slice_def
      dest: alloc_props split: option.splits if_splits)

lemma wf_slice_mono:
  "wf_slice h sl \<Longrightarrow> length h \<le> length h' \<Longrightarrow> \<forall>a<length h. h' ! a = h ! a \<Longrightarrow> wf_slice h' sl"
  by (auto simp: wf_slice_def split: option.splits)

lemma elems_mono:
  "wf_slice h sl \<Longrightarrow> \<forall>a<length h. h' ! a = h ! a \<Longrightarrow> elems h' sl = elems h sl"
  by (auto simp: wf_slice_def elems_def split: option.splits)

lemma append_msg_fields [simp]:
  "clients (append_msg g e s) = clients s"
  "broadcast (append_msg g e s) = broadcast s"
  "dialed (append_msg g e s) = dialed s"
  "closed (append_msg g e s) = closed s"
  "cur (append_msg g e s) = cur s"
  "tasks (append_msg g e s) = tasks s"
  "attempts (append_msg g e s) = attempts s"
  "pending (append_msg g e s) = pending s"
  "returned (append_msg g e s) = returned s"
  by (simp_all add: append_msg_def split: prod.split)

lemma snapshot_msgs_fields [simp]:
  "msgs (snd (snapshot_msgs g s)) = msgs s"
  "clients (snd (snapshot_msgs g s)) = clients s"
  "broadcast (snd (snapshot_msgs g s)) = broadcast s"
  "dialed (snd (snapshot_msgs g s)) = dialed s"
  "closed (snd (snapshot_msgs g s)) = closed s"
  "cur (snd (snapshot_msgs g s)) = cur s"
  "tasks (snd (snapshot_msgs g s)) = tasks s"
  "attempts (snd (snapshot_msgs g s)) = attempts s"
  "pending (snd (snapshot_msgs g s)) = pending s"
  "returned (snd (snapshot_msgs g s)) = returned s"
  by (simp_all add: snapshot_msgs_def split: prod.split)

lemma append_msg_history:
  assumes "wf s"
  shows "history (append_msg g e s) = history s @ [e]" "wf (append_msg g e s)"
proof -
  obtain h' sl' where a: "append1 g (store s) (msgs s) e = (h', sl')"
    by (cases "append1 g (store s) (msgs s) e")
  have w: "wf_slice (store s) (msgs s)" using assms by (simp add: wf_def)
  show "history (append_msg g e s) = history s @ [e]"
    using append1_props(1)[OF w a] by (simp add: history_def append_msg_def a)
  show "wf (append_msg g e s)"
    using append1_props(2)[OF w a] by (simp add: wf_def append_msg_def a)
qed

lemma append_msg_store:
  assumes "wf s"
  shows "length (store s) \<le> length (store (append_msg g e s))"
    "\<forall>a<length (store s). arr (msgs s) \<noteq> Some a \<longrightarrow> store (append_msg g e s) ! a = store s ! a"
    "arr (msgs (append_msg g e s)) = arr (msgs s) \<and> arr (msgs s) \<noteq> None
       \<or> arr (msgs (append_msg g e s)) = Some (length (store s))"
proof -
  obtain h' sl' where a: "append1 g (store s) (msgs s) e = (h', sl')"
    by (cases "append1 g (store s) (msgs s) e")
  have w: "wf_slice (store s) (msgs s)" using assms by (simp add: wf_def)
  show "length (store s) \<le> length (store (append_msg g e s))"
    using append1_props(3)[OF w a] by (simp add: append_msg_def a)
  show "\<forall>a<length (store s). arr (msgs s) \<noteq> Some a \<longrightarrow> store (append_msg g e s) ! a = store s ! a"
    using append1_props(4)[OF w a] by (simp add: append_msg_def a)
  show "arr (msgs (append_msg g e s)) = arr (msgs s) \<and> arr (msgs s) \<noteq> None
       \<or> arr (msgs (append_msg g e s)) = Some (length (store s))"
    using append1_props(5)[OF w a] by (simp add: append_msg_def a)
qed

lemma snapshot_msgs_props:
  assumes "wf s"
  shows "elems (store (snd (snapshot_msgs g s))) (fst (snapshot_msgs g s)) = history s"
    "history (snd (snapshot_msgs g s)) = history s"
    "wf (snd (snapshot_msgs g s))"
    "wf_slice (store (snd (snapshot_msgs g s))) (fst (snapshot_msgs g s))"
    "length (store s) \<le> length (store (snd (snapshot_msgs g s)))"
    "\<forall>a<length (store s). store (snd (snapshot_msgs g s)) ! a = store s ! a"
    "arr (fst (snapshot_msgs g s)) = None \<or> arr (fst (snapshot_msgs g s)) = Some (length (store s))"
proof -
  obtain h' r where a: "append_nil g (store s) (msgs s) = (h', r)"
    by (cases "append_nil g (store s) (msgs s)")
  have w: "wf_slice (store s) (msgs s)" using assms by (simp add: wf_def)
  note p = append_nil_props[OF w a]
  show "elems (store (snd (snapshot_msgs g s))) (fst (snapshot_msgs g s)) = history s"
    using p(1) by (simp add: snapshot_msgs_def a history_def)
  show "history (snd (snapshot_msgs g s)) = history s"
    using elems_mono[OF w p(4)] by (simp add: snapshot_msgs_def a history_def)
  show "wf (snd (snapshot_msgs g s))"
    using wf_slice_mono[OF w p(3) p(4)] by (simp add: snapshot_msgs_def a wf_def)
  show "wf_slice (store (snd (snapshot_msgs g s))) (fst (snapshot_msgs g s))"
    using p(2) by (simp add: snapshot_msgs_def a)
  show "length (store s) \<le> length (store (snd (snapshot_msgs g s)))"
    using p(3) by (simp add: snapshot_msgs_def a)
  show "\<forall>a<length (store s). store (snd (snapshot_msgs g s)) ! a = store s ! a"
    using p(4) by (simp add: snapshot_msgs_def a)
  show "arr (fst (snapshot_msgs g s)) = None \<or> arr (fst (snapshot_msgs g s)) = Some (length (store s))"
    using p(5) by (simp add: snapshot_msgs_def a)
qed

section \<open>The methods and the steps\<close>

lemma store_ext_refl: "store_ext s s"
  by (simp add: store_ext_def)

lemma store_ext_trans:
  assumes "store_ext s s'" "store_ext s' s''"
  shows "store_ext s s''"
  unfolding store_ext_def
proof (intro conjI allI impI)
  show "length (store s) \<le> length (store s'')"
    using assms by (simp add: store_ext_def)
next
  fix a assume a: "a < length (store s)" "arr (msgs s) \<noteq> Some a"
  have 1: "store s' ! a = store s ! a" using assms(1) a by (simp add: store_ext_def)
  have 2: "a < length (store s')" using assms(1) a by (simp add: store_ext_def)
  have 3: "arr (msgs s') \<noteq> Some a" using assms(1) a by (auto simp: store_ext_def)
  have "store s'' ! a = store s' ! a" using assms(2) 2 3 by (simp add: store_ext_def)
  with 1 show "store s'' ! a = store s ! a" by simp
next
  show "arr (msgs s'') = arr (msgs s) \<or> (\<exists>a. arr (msgs s'') = Some a \<and> length (store s) \<le> a)"
    using assms by (auto simp: store_ext_def)
qed

lemma store_ext_fields [simp]:
  "store_ext s (s'\<lparr>clients := c\<rparr>) = store_ext s s'"
  "store_ext s (s'\<lparr>broadcast := b\<rparr>) = store_ext s s'"
  "store_ext s (s'\<lparr>dialed := d\<rparr>) = store_ext s s'"
  "store_ext s (s'\<lparr>closed := cl\<rparr>) = store_ext s s'"
  "store_ext s (s'\<lparr>cur := cu\<rparr>) = store_ext s s'"
  "store_ext s (s'\<lparr>tasks := t\<rparr>) = store_ext s s'"
  "store_ext s (s'\<lparr>attempts := at\<rparr>) = store_ext s s'"
  "store_ext s (s'\<lparr>pending := p\<rparr>) = store_ext s s'"
  "store_ext s (s'\<lparr>returned := r\<rparr>) = store_ext s s'"
  "store_ext (s\<lparr>clients := c\<rparr>) s' = store_ext s s'"
  "store_ext (s\<lparr>dialed := d\<rparr>) s' = store_ext s s'"
  "store_ext (s\<lparr>closed := cl\<rparr>) s' = store_ext s s'"
  by (simp_all add: store_ext_def)

lemma wf_fields [simp]:
  "wf (s\<lparr>clients := c\<rparr>) = wf s"
  "wf (s\<lparr>broadcast := b\<rparr>) = wf s"
  "wf (s\<lparr>dialed := d\<rparr>) = wf s"
  "wf (s\<lparr>closed := cl\<rparr>) = wf s"
  "wf (s\<lparr>cur := cu\<rparr>) = wf s"
  "wf (s\<lparr>tasks := t\<rparr>) = wf s"
  "wf (s\<lparr>attempts := at\<rparr>) = wf s"
  "wf (s\<lparr>pending := p\<rparr>) = wf s"
  "wf (s\<lparr>returned := r\<rparr>) = wf s"
  by (simp_all add: wf_def)

lemma history_fields [simp]:
  "history (s\<lparr>clients := c\<rparr>) = history s"
  "history (s\<lparr>broadcast := b\<rparr>) = history s"
  "history (s\<lparr>dialed := d\<rparr>) = history s"
  "history (s\<lparr>closed := cl\<rparr>) = history s"
  "history (s\<lparr>cur := cu\<rparr>) = history s"
  "history (s\<lparr>tasks := t\<rparr>) = history s"
  "history (s\<lparr>attempts := at\<rparr>) = history s"
  "history (s\<lparr>pending := p\<rparr>) = history s"
  "history (s\<lparr>returned := r\<rparr>) = history s"
  by (simp_all add: history_def)

lemma append_msg_ext: "wf s \<Longrightarrow> store_ext s (append_msg g e s)"
  using append_msg_store[of s g e] by (auto simp: store_ext_def)

lemma snapshot_msgs_ext: "wf s \<Longrightarrow> store_ext s (snd (snapshot_msgs g s))"
  using snapshot_msgs_props(5,6)[of s g] by (simp add: store_ext_def)

text \<open>What each method does to the history, the invariant and the store.\<close>

lemma Register_props:
  assumes "wf s"
  shows "wf (Register g args ok s)"
    "history (Register g args ok s) =
       (if ok then history s @ [''User '' @ ID args @ '' joined''] else history s)"
    "store_ext s (Register g args ok s)"
proof -
  let ?s1 = "s\<lparr>dialed := Suc (dialed s), clients := AList.update (ID args) (dialed s) (clients s)\<rparr>"
  have w1: "wf ?s1" using assms by simp
  show "wf (Register g args ok s)"
    using append_msg_history(2)[OF w1] assms by (simp add: Register_def Let_def)
  show "history (Register g args ok s) =
       (if ok then history s @ [''User '' @ ID args @ '' joined''] else history s)"
    using append_msg_history(1)[OF w1] by (simp add: Register_def Let_def)
  show "store_ext s (Register g args ok s)"
    using append_msg_ext[OF w1] by (simp add: Register_def Let_def store_ext_refl)
qed

lemma Unregister_props:
  assumes "wf s"
  shows "wf (Unregister g args s)"
    "history (Unregister g args s) = history s @ [''User '' @ ID args @ '' left'']"
    "store_ext s (Unregister g args s)"
proof -
  let ?s1 = "case map_of (clients s) (ID args) of
               Some cli \<Rightarrow> s\<lparr>closed := closed s @ [cli], clients := AList.delete (ID args) (clients s)\<rparr>
             | None \<Rightarrow> s"
  have w1: "wf ?s1" using assms by (simp split: option.split)
  have h1: "history ?s1 = history s" by (simp split: option.split)
  have e1: "store_ext s (append_msg g (''User '' @ ID args @ '' left'') ?s1)"
    using append_msg_ext[of ?s1 g "''User '' @ ID args @ '' left''"] w1
    by (cases "map_of (clients s) (ID args)") simp_all
  show "wf (Unregister g args s)"
    using append_msg_history(2)[OF w1] by (simp add: Unregister_def Let_def)
  show "history (Unregister g args s) = history s @ [''User '' @ ID args @ '' left'']"
    using append_msg_history(1)[OF w1] h1 by (simp add: Unregister_def Let_def)
  show "store_ext s (Unregister g args s)"
    using e1 by (simp add: Unregister_def Let_def)
qed

lemma Send_props:
  assumes "wf s"
  shows "wf (snd (Send g args s))"
    "history (snd (Send g args s)) = history s @ [Sender args @ '': '' @ Text args]"
    "store_ext s (snd (Send g args s))"
    "elems (store (snd (Send g args s))) (fst (Send g args s)) = history (snd (Send g args s))"
    "unaliased (fst (Send g args s)) (snd (Send g args s))"
    "pending (snd (Send g args s)) = pending s @ [(args, HistoryReply (fst (Send g args s)))]"
proof -
  let ?e = "Sender args @ '': '' @ Text args"
  let ?s1 = "append_msg g ?e s"
  let ?p = "snapshot_msgs g ?s1"
  have w1: "wf ?s1" using append_msg_history(2)[OF assms] .
  have S: "Send g args s = (fst ?p, (snd ?p)\<lparr>pending := pending s @ [(args, HistoryReply (fst ?p))]\<rparr>)"
    by (simp add: Send_def Let_def case_prod_unfold)
  note sp = snapshot_msgs_props[OF w1, of g]
  show "wf (snd (Send g args s))" using sp(3) by (simp add: S)
  show "history (snd (Send g args s)) = history s @ [?e]"
    using sp(2) append_msg_history(1)[OF assms] by (simp add: S)
  show "store_ext s (snd (Send g args s))"
    using store_ext_trans[OF append_msg_ext[OF assms] snapshot_msgs_ext[OF w1]] by (simp add: S)
  show "elems (store (snd (Send g args s))) (fst (Send g args s)) = history (snd (Send g args s))"
    using sp(1,2) by (simp add: S)
  show "unaliased (fst (Send g args s)) (snd (Send g args s))"
    using sp(4,7) w1 by (auto simp: S unaliased_def wf_def wf_slice_def split: option.splits)
  show "pending (snd (Send g args s)) = pending s @ [(args, HistoryReply (fst (Send g args s)))]"
    by (simp add: S)
qed

lemma History_props:
  assumes "wf s"
  shows "wf (snd (History g s))"
    "history (snd (History g s)) = history s"
    "store_ext s (snd (History g s))"
    "elems (store (snd (History g s))) (fst (History g s)) = history s"
    "unaliased (fst (History g s)) (snd (History g s))"
proof -
  let ?p = "snapshot_msgs g s"
  have H: "History g s = (fst ?p, (snd ?p)\<lparr>returned := returned s @ [HistoryReply (fst ?p)]\<rparr>)"
    by (simp add: History_def Let_def case_prod_unfold)
  note sp = snapshot_msgs_props[OF assms, of g]
  show "wf (snd (History g s))" using sp(3) by (simp add: H)
  show "history (snd (History g s)) = history s" using sp(2) by (simp add: H)
  show "store_ext s (snd (History g s))" using snapshot_msgs_ext[OF assms] by (simp add: H)
  show "elems (store (snd (History g s))) (fst (History g s)) = history s"
    using sp(1) by (simp add: H)
  show "unaliased (fst (History g s)) (snd (History g s))"
    using sp(4,7) assms by (auto simp: H unaliased_def wf_def wf_slice_def split: option.splits)
qed

lemma set_remove_nth: "set (remove_nth i xs) \<subseteq> set xs"
  by (auto simp: remove_nth_def dest: in_set_takeD in_set_dropD)

lemma length_remove_nth: "i < length xs \<Longrightarrow> Suc (length (remove_nth i xs)) = length xs"
  by (auto simp: remove_nth_def)

lemma step_wf:
  assumes "wf s" "step g e s = Some s'"
  shows "wf s'" "store_ext s s'" "prefix (history s) (history s')"
proof -
  have "wf s' \<and> store_ext s s' \<and> prefix (history s) (history s')"
  proof (cases e)
    case (EvRegister args ok)
    then show ?thesis using assms Register_props[OF assms(1), of g args ok] by auto
  next
    case (EvUnregister args)
    then show ?thesis using assms Unregister_props[OF assms(1), of g args] by auto
  next
    case (EvSend args)
    then show ?thesis using assms Send_props(1,2,3)[OF assms(1), of g args] by auto
  next
    case EvHistory
    then show ?thesis using assms History_props(1,2,3)[OF assms(1), of g] by auto
  next
    case (EvChanSend i)
    then show ?thesis using assms
      by (auto simp: chan_send_def store_ext_refl split: if_splits)
  next
    case EvRecv
    then show ?thesis using assms
      by (auto simp: broadcaster_recv_def store_ext_refl split: option.splits list.splits)
  next
    case EvFanout
    then show ?thesis using assms
      by (auto simp: broadcaster_fanout_def store_ext_refl split: option.splits)
  next
    case (EvDeliver i ok)
    then show ?thesis using assms
      by (auto simp: deliver_def Let_def store_ext_refl split: if_splits prod.splits)
  qed
  then show "wf s'" "store_ext s s'" "prefix (history s) (history s')" by simp_all
qed

lemma step_bound:
  assumes "length (broadcast s) \<le> broadcast_cap" "step g e s = Some s'"
  shows "length (broadcast s') \<le> broadcast_cap"
  using assms
  by (cases e)
    (auto simp: Register_def Unregister_def Send_def History_def Let_def case_prod_unfold
      chan_send_def broadcaster_recv_def broadcaster_fanout_def deliver_def
      split: if_splits option.splits list.splits prod.splits)

lemma step_distinct:
  assumes "distinct (map fst (clients s))" "step g e s = Some s'"
  shows "distinct (map fst (clients s'))"
  using assms
  by (cases e)
    (auto simp: Register_def Unregister_def Send_def History_def Let_def case_prod_unfold
      chan_send_def broadcaster_recv_def broadcaster_fanout_def deliver_def
      AList.distinct_update AList.distinct_delete
      split: if_splits option.splits list.splits prod.splits)

lemma recipients_no_self: "t \<in> set (recipients snap m) \<Longrightarrow> fst t \<noteq> Sender (snd (snd t))"
  by (auto simp: recipients_def)

lemma step_no_self_echo:
  assumes "no_self_echo s" "step g e s = Some s'"
  shows "no_self_echo s'"
proof (cases e)
  case (EvDeliver i ok)
  then have i: "i < length (tasks s)" using assms(2) by (simp add: deliver_def split: if_splits)
  obtain cid cli m where t: "tasks s ! i = (cid, cli, m)" by (cases "tasks s ! i")
  have "(cid, cli, m) \<in> set (tasks s)" using i t by (metis nth_mem)
  then have ne: "cid \<noteq> Sender m" using assms(1) by (auto simp: no_self_echo_def)
  show ?thesis using assms EvDeliver i t ne set_remove_nth[of i "tasks s"]
    by (auto simp: deliver_def Let_def no_self_echo_def split: if_splits)
next
  case EvFanout
  then show ?thesis using assms
    by (fastforce simp: broadcaster_fanout_def no_self_echo_def dest: recipients_no_self
        split: option.splits)
qed (use assms in \<open>auto simp: Register_def Unregister_def Send_def History_def Let_def
      case_prod_unfold chan_send_def broadcaster_recv_def no_self_echo_def
      split: if_splits option.splits list.splits\<close>)

lemma step_pending_ok:
  assumes "\<forall>p \<in> set (pending s). \<not> is_error (snd p)" "step g e s = Some s'"
  shows "\<forall>p \<in> set (pending s'). \<not> is_error (snd p)"
proof (cases e)
  case (EvChanSend i)
  then show ?thesis using assms set_remove_nth[of i "pending s"]
    by (auto simp: chan_send_def split: if_splits)
qed (use assms in \<open>auto simp: Register_def Unregister_def Send_def History_def Let_def
      case_prod_unfold broadcaster_recv_def broadcaster_fanout_def deliver_def is_error_def
      split: if_splits option.splits list.splits prod.splits\<close>)

section \<open>Runs and the invariant\<close>

lemma server_inv_init: "server_inv NewChatServer"
  by (simp add: server_inv_def NewChatServer_def wf_def wf_slice_def nil_slice_def
      no_self_echo_def)

lemma step_server_inv:
  assumes "server_inv s" "step g e s = Some s'"
  shows "server_inv s'"
  using assms step_wf(1)[of s g e s'] step_bound[of s g e s'] step_distinct[of s g e s']
    step_no_self_echo[of s g e s'] step_pending_ok[of s g e s']
  unfolding server_inv_def by blast

lemma run_server_inv:
  "server_inv s \<Longrightarrow> run g es s = Some s' \<Longrightarrow> server_inv s'"
proof (induction es arbitrary: s)
  case Nil
  then show ?case by simp
next
  case (Cons e es)
  then obtain s1 where s1: "step g e s = Some s1" "run g es s1 = Some s'"
    by (auto split: option.splits)
  from step_server_inv[OF Cons.prems(1) s1(1)] Cons.IH s1(2) show ?case by blast
qed

lemma reachable_inv: "run g es NewChatServer = Some s \<Longrightarrow> server_inv s"
  using run_server_inv[OF server_inv_init] .

lemma run_ext:
  "wf s \<Longrightarrow> run g es s = Some s' \<Longrightarrow> store_ext s s' \<and> prefix (history s) (history s')"
proof (induction es arbitrary: s)
  case Nil
  then show ?case by (simp add: store_ext_refl)
next
  case (Cons e es)
  then obtain s1 where s1: "step g e s = Some s1" "run g es s1 = Some s'"
    by (auto split: option.splits)
  note st = step_wf[OF Cons.prems(1) s1(1)]
  from Cons.IH[OF st(1) s1(2)] st(2,3) show ?case
    using store_ext_trans prefix_order.trans by blast
qed

lemma unaliased_ext:
  assumes "unaliased r s" "store_ext s s'"
  shows "unaliased r s'" "elems (store s') r = elems (store s) r"
  using assms by (auto simp: unaliased_def store_ext_def elems_def split: option.splits)

lemma run_append:
  "run g (es @ fs) s = (case run g es s of None \<Rightarrow> None | Some s1 \<Rightarrow> run g fs s1)"
  by (induction es arbitrary: s) (auto split: option.splits)

lemma drain_then_send:
  assumes "length (broadcast s) \<le> broadcast_cap" "i < length (pending s)"
  shows "\<exists>s'. run g (drain s @ [EvChanSend i]) s = Some s' \<and>
           returned s' = returned s @ [snd (pending s ! i)] \<and>
           last (broadcast s') = fst (pending s ! i) \<and>
           pending s' = remove_nth i (pending s) \<and>
           store s' = store s \<and> msgs s' = msgs s \<and> clients s' = clients s \<and> closed s' = closed s"
proof (cases "length (broadcast s) < broadcast_cap")
  case True
  then show ?thesis using assms by (simp add: drain_def chan_send_def)
next
  case False
  then have full: "length (broadcast s) = broadcast_cap" using assms by simp
  then obtain m q where q: "broadcast s = m # q" "length q < broadcast_cap"
    by (cases "broadcast s") (auto simp: broadcast_cap_def)
  show ?thesis
  proof (cases "cur s")
    case None
    then show ?thesis using False q assms
      by (simp add: drain_def chan_send_def broadcaster_recv_def)
  next
    case (Some m')
    then show ?thesis using False q assms
      by (simp add: drain_def chan_send_def broadcaster_recv_def broadcaster_fanout_def)
  qed
qed









text \<open>What a failing delivery goroutine does to the state.\<close>

lemma deliver_failure_effect:
  assumes "run g evs NewChatServer = Some s"
    and "deliver i False s = Some s'" and "tasks s ! i = (cid, cli, m)"
  shows "map_of (clients s') cid = None \<and>
         cid \<notin> fst ` set (clients s') \<and>
         (\<forall>c. c \<noteq> cid \<longrightarrow> map_of (clients s') c = map_of (clients s) c) \<and>
         closed s' = closed s @ [cli] \<and>
         tasks s' = remove_nth i (tasks s) \<and>
         Suc (length (tasks s')) = length (tasks s) \<and>
         attempts s' = attempts s @ [((cid, cli, m), False)] \<and>
         broadcast s' = broadcast s \<and> cur s' = cur s \<and>
         pending s' = pending s \<and> returned s' = returned s \<and>
         (\<forall>p \<in> set (pending s'). \<not> is_error (snd p)) \<and>
         history s' = history s"
proof -
  have i: "i < length (tasks s)" using assms(2) by (simp add: deliver_def split: if_splits)
  have s': "s' = s\<lparr>tasks := remove_nth i (tasks s),
                    attempts := attempts s @ [((cid, cli, m), False)],
                    closed := closed s @ [cli],
                    clients := AList.delete cid (clients s)\<rparr>"
    using assms(2,3) i by (simp add: deliver_def Let_def)
  have ok: "\<forall>p \<in> set (pending s). \<not> is_error (snd p)"
    using reachable_inv[OF assms(1)] by (simp add: server_inv_def)
  have "map_of (clients s') cid = None" by (simp add: s' AList.delete_conv')
  moreover have "cid \<notin> fst ` set (clients s')" using AList.delete_notin_dom[of cid "clients s"] by (simp add: s')
  moreover have "\<forall>c. c \<noteq> cid \<longrightarrow> map_of (clients s') c = map_of (clients s) c" by (simp add: s')
  moreover have "Suc (length (tasks s')) = length (tasks s)" using length_remove_nth[OF i] by (simp add: s')
  ultimately show ?thesis using ok by (simp add: s')
qed

section \<open>Concrete runs\<close>

lemmas model_defs =
  NewChatServer_def Register_def Unregister_def Send_def History_def Let_def
  append_msg_def snapshot_msgs_def append1_def append_nil_def alloc_def elems_def nil_slice_def
  chan_send_def broadcaster_recv_def broadcaster_fanout_def deliver_def recipients_def
  remove_nth_def broadcast_cap_def history_def doubling_def Alice_def Bob_def Carol_def hi_def
  joined_def

lemmas example_defs = model_defs bobJoined_def

lemma joined_runs:
  "run doubling joined NewChatServer =
     Some \<lparr>msgs = \<lparr>arr = Some 0, len = 2, cap = 2\<rparr>,
           clients = [(''Alice'', 0), (''Bob'', 1)],
           broadcast = [],
           store = [[''User Alice joined'', ''User Bob joined'']],
           dialed = 2, closed = [],
           cur = Some \<lparr>Sender = ''Bob'', Text = ''User Bob joined''\<rparr>,
           tasks = [], attempts = [], pending = [], returned = [Empty, Empty]\<rparr>"
  by (simp add: model_defs)

lemma enqueue_round:
  assumes "pending s = []" "length (broadcast s) < broadcast_cap"
  shows "\<exists>s'. run g [EvUnregister a, EvChanSend 0] s = Some s' \<and> pending s' = [] \<and>
           length (broadcast s') = Suc (length (broadcast s)) \<and> cur s' = cur s"
  using assms
  by (simp add: Unregister_def Let_def chan_send_def remove_nth_def split: option.splits)

lemma flood_run:
  "pending s = [] \<Longrightarrow> length (broadcast s) + n \<le> broadcast_cap \<Longrightarrow>
   \<exists>s'. run g (concat (replicate n [EvUnregister a, EvChanSend 0])) s = Some s' \<and>
        pending s' = [] \<and> length (broadcast s') = length (broadcast s) + n \<and> cur s' = cur s"
proof (induction n arbitrary: s)
  case 0
  then show ?case by simp
next
  case (Suc n)
  from enqueue_round[OF Suc.prems(1), of g a] Suc.prems(2)
  obtain s1 where s1: "run g [EvUnregister a, EvChanSend 0] s = Some s1" "pending s1 = []"
    "length (broadcast s1) = Suc (length (broadcast s))" "cur s1 = cur s"
    by auto
  from Suc.IH[OF s1(2)] s1(3) Suc.prems(2)
  obtain s' where s': "run g (concat (replicate n [EvUnregister a, EvChanSend 0])) s1 = Some s'"
    "pending s' = []" "length (broadcast s') = length (broadcast s1) + n" "cur s' = cur s1"
    by auto
  have "run g (concat (replicate (Suc n) [EvUnregister a, EvChanSend 0])) s = Some s'"
    using s1(1) s'(1) run_append[of g "[EvUnregister a, EvChanSend 0]" _ s] by simp
  then show ?case using s' s1 by simp
qed

lemma flood_full:
  "\<exists>s. run doubling flood NewChatServer = Some s \<and> length (broadcast s) = 100 \<and>
       cur s = None \<and> pending s = []"
proof -
  have a: "length (broadcast NewChatServer) = 0" "cur NewChatServer = None"
    by (simp_all add: NewChatServer_def)
  have "pending NewChatServer = []" "length (broadcast NewChatServer) + 100 \<le> broadcast_cap"
    by (simp_all add: NewChatServer_def broadcast_cap_def)
  from flood_run[OF this, of doubling Carol] obtain s where s:
    "run doubling (concat (replicate 100 [EvUnregister Carol, EvChanSend 0])) NewChatServer = Some s"
    "pending s = []" "length (broadcast s) = length (broadcast NewChatServer) + 100"
    "cur s = cur NewChatServer"
    by blast
  have "run doubling flood NewChatServer = Some s" unfolding flood_def using s(1) .
  moreover have "length (broadcast s) = 100" using s(3) a(1) by simp
  moreover have "cur s = None" using s(4) a(2) by simp
  ultimately show ?thesis using s(2) by blast
qed

lemma flood_send:
  "\<exists>s. run doubling (flood @ [EvSend hi]) NewChatServer = Some s \<and>
       length (broadcast s) = 100 \<and> cur s = None \<and> length (pending s) = 1 \<and>
       fst (pending s ! 0) = hi"
proof -
  from flood_full obtain f where f: "run doubling flood NewChatServer = Some f"
    "length (broadcast f) = 100" "cur f = None" "pending f = []"
    by blast
  have "run doubling (flood @ [EvSend hi]) NewChatServer = Some (snd (Send doubling hi f))"
    by (simp add: run_append f(1))
  then show ?thesis using f(2,3,4) by (simp add: Send_def Let_def case_prod_unfold)
qed

section \<open>The claims\<close>

subsection \<open>Send returns the full history\<close>

text \<open>
  Claim C1. In every state the server can reach, the critical section of \<open>Send\<close> appends
  the entry \<open>sender: text\<close> to the history and copies the history into the reply: the
  snapshot is not empty, its last entry is that string, and it equals the full history,
  which is the old history followed by the new entry. The call stands at the channel
  send with that reply, and there is a schedule after which it has returned it, the
  snapshot still holding the same entries.
\<close>

theorem Send_returns_full_history:
  assumes "run g evs NewChatServer = Some s" and "Send g args s = (r, s')"
  shows "elems (store s') r \<noteq> [] \<and>
         last (elems (store s') r) = Sender args @ '': '' @ Text args \<and>
         elems (store s') r = history s' \<and>
         history s' = history s @ [Sender args @ '': '' @ Text args] \<and>
         pending s' = pending s @ [(args, HistoryReply r)] \<and>
         (\<exists>s''. run g (drain s' @ [EvChanSend (length (pending s))]) s' = Some s'' \<and>
                returned s'' = returned s' @ [HistoryReply r] \<and>
                elems (store s'') r = history s')"
proof -
  have inv: "server_inv s" using reachable_inv[OF assms(1)] .
  then have w: "wf s" by (simp add: server_inv_def)
  note sp = Send_props[OF w, of g args]
  have r: "fst (Send g args s) = r" "snd (Send g args s) = s'" using assms(2) by simp_all
  have inv': "server_inv s'"
    using step_server_inv[OF inv, of g "EvSend args" s'] r by simp
  have b: "length (broadcast s') \<le> broadcast_cap" using inv' by (simp add: server_inv_def)
  have p: "pending s' = pending s @ [(args, HistoryReply r)]" using sp(6) r by simp
  then have i: "length (pending s) < length (pending s')" by simp
  from drain_then_send[OF b i, of g] obtain s'' where
    s'': "run g (drain s' @ [EvChanSend (length (pending s))]) s' = Some s''"
      "returned s'' = returned s' @ [snd (pending s' ! length (pending s))]"
      "store s'' = store s'" "msgs s'' = msgs s'"
    by blast
  have e: "elems (store s') r = history s'" using sp(4) r by simp
  have h: "history s' = history s @ [Sender args @ '': '' @ Text args]" using sp(2) r by simp
  have "returned s'' = returned s' @ [HistoryReply r]" using s''(2) p by simp
  moreover have "elems (store s'') r = history s'" using s''(3) e by simp
  ultimately show ?thesis using e h p s''(1) by auto
qed

text \<open>After Alice and Bob have joined, Alice sends \<open>hi\<close>: the snapshot is the two join notices and the new entry.\<close>

theorem Send_returns_full_history_witness:
  "run doubling joined NewChatServer \<noteq> None \<and>
   elems (store (snd (Send doubling hi (the (run doubling joined NewChatServer)))))
         (fst (Send doubling hi (the (run doubling joined NewChatServer))))
     = [''User Alice joined'', ''User Bob joined'', ''Alice: hi''] \<and>
   last (elems (store (snd (Send doubling hi (the (run doubling joined NewChatServer)))))
         (fst (Send doubling hi (the (run doubling joined NewChatServer))))) = ''Alice: hi''"
proof -
  let ?s = "the (run doubling joined NewChatServer)"
  have n: "run doubling joined NewChatServer \<noteq> None" by (simp add: joined_runs)
  then have h: "run doubling joined NewChatServer = Some ?s" by simp
  have h2: "Send doubling hi ?s = (fst (Send doubling hi ?s), snd (Send doubling hi ?s))" by simp
  have v: "history ?s = [''User Alice joined'', ''User Bob joined'']"
    by (simp add: joined_runs history_def elems_def)
  from Send_returns_full_history[OF h h2] v n show ?thesis by (simp add: hi_def)
qed

subsection \<open>No self-echo\<close>

text \<open>
  Claim C2. In every state the server can reach, no delivery goroutine that is running and no
  delivery call that was made targets the client whose id is the sender of the message it
  carries; the fan-out never starts one. The message that \<open>Register\<close> hands to the
  broadcaster has the joining client as its sender, and \<open>Send\<close> hands over the
  caller's message as it came, so a joining client gets neither its own join notice nor a
  sender its own message.
\<close>

theorem no_delivery_to_sender:
  assumes "run g evs NewChatServer = Some s"
  shows "(\<forall>cid cli m. (cid, cli, m) \<in> set (tasks s) \<longrightarrow> cid \<noteq> Sender m) \<and>
         (\<forall>cid cli m ok. ((cid, cli, m), ok) \<in> set (attempts s) \<longrightarrow> cid \<noteq> Sender m) \<and>
         (\<forall>snap m cli. (Sender m, cli, m) \<notin> set (recipients snap m)) \<and>
         Sender (fst (last (pending (Register g args True s)))) = ID args \<and>
         fst (last (pending (snd (Send g margs s)))) = margs"
proof -
  have "no_self_echo s" using reachable_inv[OF assms] by (simp add: server_inv_def)
  then have "\<forall>cid cli m. (cid, cli, m) \<in> set (tasks s) \<longrightarrow> cid \<noteq> Sender m"
    "\<forall>cid cli m ok. ((cid, cli, m), ok) \<in> set (attempts s) \<longrightarrow> cid \<noteq> Sender m"
    by (force simp: no_self_echo_def)+
  moreover have "\<forall>snap m cli. (Sender m, cli, m) \<notin> set (recipients snap m)"
    by (auto simp: recipients_def)
  moreover have "Sender (fst (last (pending (Register g args True s)))) = ID args"
    by (simp add: Register_def Let_def)
  moreover have "fst (last (pending (snd (Send g margs s)))) = margs"
    by (simp add: Send_def Let_def case_prod_unfold)
  ultimately show ?thesis by blast
qed

text \<open>In a run where Alice's delivery of Bob's join notice is still running and \<open>hi\<close> was delivered to Bob.\<close>

theorem no_delivery_to_sender_witness:
  "run doubling (joined @ [EvFanout, EvSend hi, EvChanSend 0, EvRecv, EvFanout, EvDeliver 1 True])
     NewChatServer \<noteq> None \<and>
   (''Alice'', 0, bobJoined) \<in> set (tasks (the (run doubling
      (joined @ [EvFanout, EvSend hi, EvChanSend 0, EvRecv, EvFanout, EvDeliver 1 True])
      NewChatServer))) \<and>
   ''Alice'' \<noteq> Sender bobJoined \<and>
   ((''Bob'', 1, hi), True) \<in> set (attempts (the (run doubling
      (joined @ [EvFanout, EvSend hi, EvChanSend 0, EvRecv, EvFanout, EvDeliver 1 True])
      NewChatServer))) \<and>
   ''Bob'' \<noteq> Sender hi"
proof -
  let ?es = "joined @ [EvFanout, EvSend hi, EvChanSend 0, EvRecv, EvFanout, EvDeliver 1 True]"
  let ?s = "the (run doubling ?es NewChatServer)"
  have n: "run doubling ?es NewChatServer \<noteq> None" by (simp add: example_defs)
  then have h: "run doubling ?es NewChatServer = Some ?s" by simp
  have t: "(''Alice'', 0, bobJoined) \<in> set (tasks ?s)" by (simp add: example_defs)
  have a: "((''Bob'', 1, hi), True) \<in> set (attempts ?s)" by (simp add: example_defs)
  from no_delivery_to_sender[OF h, of Alice hi] t a n show ?thesis by blast
qed

subsection \<open>A failed dial\<close>

text \<open>
  Claim C3. When the dial fails, \<open>Register\<close> returns the error to its caller at once and
  changes nothing else: the registry, the history slice, the store and the history it
  holds, the channel, the calls waiting to send on the channel, the broadcaster and the
  delivery goroutines are as before.
\<close>

theorem Register_dial_failure_changes_nothing:
  "returned (Register g args False s) = returned s @ [Error (DialError (ID args) (Addr args))] \<and>
   clients (Register g args False s) = clients s \<and>
   msgs (Register g args False s) = msgs s \<and>
   store (Register g args False s) = store s \<and>
   history (Register g args False s) = history s \<and>
   broadcast (Register g args False s) = broadcast s \<and>
   pending (Register g args False s) = pending s \<and>
   cur (Register g args False s) = cur s \<and>
   tasks (Register g args False s) = tasks s \<and>
   closed (Register g args False s) = closed s \<and>
   dialed (Register g args False s) = dialed s"
  by (simp add: Register_def)

subsection \<open>A failed delivery\<close>

text \<open>
  Claim C4 (when a delivery to a recipient fails, the recipient is removed from the registry
  and its endpoint is closed), at the input where the code departs from it. A delivery
  goroutine for Bob is started on endpoint 1; Bob leaves and registers again, so that the
  registry holds endpoint 2 for Bob; then the delivery fails. The goroutine closes the
  endpoint it captured, endpoint 1, a second time, and deletes the entry it finds under
  its id: Bob is removed from the registry and the endpoint of the removed entry,
  endpoint 2, is never closed.
\<close>

theorem stale_failed_delivery_closes_other_endpoint:
  "map_option (\<lambda>s. (map_of (clients s) ''Bob'', tasks s, closed s))
     (run g bobRejoined NewChatServer)
     = Some (Some 2, [(''Bob'', 1, aliceJoined)], [1]) \<and>
   map_option (\<lambda>s. (map_of (clients s) ''Bob'', clients s, tasks s, attempts s, closed s,
                     2 \<in> set (closed s)))
     (run g (bobRejoined @ [EvDeliver 0 False]) NewChatServer)
     = Some (None, [(''Alice'', 0)], [], [((''Bob'', 1, aliceJoined), False)], [1, 1], False)"
  by (simp add: bobRejoined_def aliceJoined_def NewChatServer_def Register_def Unregister_def
      Let_def Alice_def Bob_def chan_send_def broadcaster_recv_def broadcaster_fanout_def
      deliver_def recipients_def remove_nth_def broadcast_cap_def)

subsection \<open>The history is append-only\<close>

text \<open>
  Claim C5. Between a reachable state and any state reached from it by any sequence of
  Register, Unregister, Send, History, channel, broadcaster and delivery steps, the
  history only grows at its end: the earlier history is a prefix of the later one, its
  length does not decrease, every entry keeps its position and value, and what
  \<open>History\<close> returns in the earlier state is a prefix of what it returns in the later one.
\<close>

theorem history_is_append_only:
  assumes "run g evs NewChatServer = Some s" and "run g evs' s = Some s'"
  shows "prefix (history s) (history s') \<and>
         length (history s) \<le> length (history s') \<and>
         (\<forall>i<length (history s). history s' ! i = history s ! i) \<and>
         prefix (elems (store (snd (History g s))) (fst (History g s)))
                (elems (store (snd (History g s'))) (fst (History g s')))"
proof -
  have w: "wf s" using reachable_inv[OF assms(1)] by (simp add: server_inv_def)
  have w': "wf s'" using run_server_inv[OF reachable_inv[OF assms(1)] assms(2)]
    by (simp add: server_inv_def)
  have p: "prefix (history s) (history s')" using run_ext[OF w assms(2)] by simp
  then obtain zs where zs: "history s' = history s @ zs" by (auto simp: prefix_def)
  have "length (history s) \<le> length (history s')" using zs by simp
  moreover have "\<forall>i<length (history s). history s' ! i = history s ! i"
    using zs by (simp add: nth_append)
  moreover have "prefix (elems (store (snd (History g s))) (fst (History g s)))
                (elems (store (snd (History g s'))) (fst (History g s')))"
    using History_props(4)[OF w, of g] History_props(4)[OF w', of g] p by simp
  ultimately show ?thesis using p by simp
qed

text \<open>From the state with two join notices, a fan-out, a message and a leave only extend the history.\<close>

theorem history_is_append_only_witness:
  "run doubling joined NewChatServer \<noteq> None \<and>
   run doubling [EvFanout, EvSend hi, EvUnregister Alice] (the (run doubling joined NewChatServer))
     \<noteq> None \<and>
   history (the (run doubling joined NewChatServer)) = [''User Alice joined'', ''User Bob joined''] \<and>
   prefix [''User Alice joined'', ''User Bob joined'']
     (history (the (run doubling [EvFanout, EvSend hi, EvUnregister Alice]
        (the (run doubling joined NewChatServer))))) \<and>
   2 \<le> length (history (the (run doubling [EvFanout, EvSend hi, EvUnregister Alice]
        (the (run doubling joined NewChatServer)))))"
proof -
  let ?s = "the (run doubling joined NewChatServer)"
  let ?s' = "the (run doubling [EvFanout, EvSend hi, EvUnregister Alice] ?s)"
  have n: "run doubling joined NewChatServer \<noteq> None" by (simp add: joined_runs)
  then have h: "run doubling joined NewChatServer = Some ?s" by simp
  have n': "run doubling [EvFanout, EvSend hi, EvUnregister Alice] ?s \<noteq> None"
    by (simp add: joined_runs broadcaster_fanout_def)
  then have h': "run doubling [EvFanout, EvSend hi, EvUnregister Alice] ?s = Some ?s'" by simp
  have v: "history ?s = [''User Alice joined'', ''User Bob joined'']"
    by (simp add: joined_runs history_def elems_def)
  from history_is_append_only[OF h h'] v n n' show ?thesis by (simp del: run.simps)
qed

subsection \<open>Snapshots are copies\<close>

text \<open>
  Claim C6. The slice that \<open>History\<close> or \<open>Send\<close> returns does not share its backing array
  with the server's history slice, neither when it is returned nor after any later
  sequence of steps, and whatever the server does afterwards leaves the entries of the
  returned slice as they were.
\<close>

theorem snapshots_are_independent_copies:
  assumes "run g evs NewChatServer = Some s"
    and "History g s = (r, s1) \<or> Send g args s = (r, s1)"
    and "run g evs' s1 = Some s2"
  shows "elems (store s2) r = elems (store s1) r \<and>
         (\<forall>a. arr r = Some a \<longrightarrow> arr (msgs s1) \<noteq> Some a \<and> arr (msgs s2) \<noteq> Some a)"
proof -
  have w: "wf s" using reachable_inv[OF assms(1)] by (simp add: server_inv_def)
  have "wf s1 \<and> unaliased r s1"
    using assms(2) History_props(1,5)[OF w, of g] Send_props(1,5)[OF w, of g args] by auto
  then have w1: "wf s1" and u1: "unaliased r s1" by simp_all
  have e: "store_ext s1 s2" using run_ext[OF w1 assms(3)] by simp
  note u2 = unaliased_ext[OF u1 e]
  show ?thesis using u1 u2 by (auto simp: unaliased_def)
qed

text \<open>A snapshot taken by \<open>History\<close>, and one taken by \<open>Send\<close>, read the same after later appends.\<close>

theorem snapshots_are_independent_copies_witness:
  "run doubling joined NewChatServer \<noteq> None \<and>
   run doubling [EvFanout, EvSend hi, EvUnregister Bob]
     (snd (History doubling (the (run doubling joined NewChatServer)))) \<noteq> None \<and>
   elems (store (the (run doubling [EvFanout, EvSend hi, EvUnregister Bob]
            (snd (History doubling (the (run doubling joined NewChatServer)))))))
         (fst (History doubling (the (run doubling joined NewChatServer))))
     = [''User Alice joined'', ''User Bob joined''] \<and>
   run doubling [EvFanout, EvUnregister Bob, EvRegister Carol True]
     (snd (Send doubling hi (the (run doubling joined NewChatServer)))) \<noteq> None \<and>
   elems (store (the (run doubling [EvFanout, EvUnregister Bob, EvRegister Carol True]
            (snd (Send doubling hi (the (run doubling joined NewChatServer)))))))
         (fst (Send doubling hi (the (run doubling joined NewChatServer))))
     = [''User Alice joined'', ''User Bob joined'', ''Alice: hi'']"
proof -
  let ?s = "the (run doubling joined NewChatServer)"
  let ?H = "History doubling ?s"
  let ?S = "Send doubling hi ?s"
  let ?e1 = "[EvFanout, EvSend hi, EvUnregister Bob]"
  let ?e2 = "[EvFanout, EvUnregister Bob, EvRegister Carol True]"
  have n: "run doubling joined NewChatServer \<noteq> None" by (simp add: joined_runs)
  then have h: "run doubling joined NewChatServer = Some ?s" by simp
  have a1: "History doubling ?s = (fst ?H, snd ?H) \<or> Send doubling hi ?s = (fst ?H, snd ?H)"
    by simp
  have a2: "History doubling ?s = (fst ?S, snd ?S) \<or> Send doubling hi ?s = (fst ?S, snd ?S)"
    by simp
  have n1: "run doubling ?e1 (snd ?H) \<noteq> None"
    by (simp add: joined_runs History_def snapshot_msgs_def Let_def case_prod_unfold
        broadcaster_fanout_def)
  then have r1: "run doubling ?e1 (snd ?H) = Some (the (run doubling ?e1 (snd ?H)))" by simp
  have n2: "run doubling ?e2 (snd ?S) \<noteq> None"
    by (simp add: joined_runs Send_def snapshot_msgs_def append_msg_def Let_def case_prod_unfold
        broadcaster_fanout_def)
  then have r2: "run doubling ?e2 (snd ?S) = Some (the (run doubling ?e2 (snd ?S)))" by simp
  have v1: "elems (store (snd ?H)) (fst ?H) = [''User Alice joined'', ''User Bob joined'']"
    by (simp add: joined_runs example_defs)
  have v2: "elems (store (snd ?S)) (fst ?S) = [''User Alice joined'', ''User Bob joined'', ''Alice: hi'']"
    by (simp add: joined_runs example_defs)
  from snapshots_are_independent_copies[OF h a1 r1] snapshots_are_independent_copies[OF h a2 r2]
    v1 v2 n n1 n2
  show ?thesis by (simp del: run.simps)
qed

subsection \<open>Endpoints that leave the registry\<close>

text \<open>
  Claim C7 (an endpoint that leaves the registry is closed in the step that removes it), at
  the inputs where the code departs from it. The first run registers the id Alice twice.
  After the first \<open>Register\<close> the registry holds endpoint 0 under that id; the second
  overwrites the entry with endpoint 1 and closes nothing, so endpoint 0 is out of the
  registry and was never closed. The second run is an eviction: a delivery goroutine
  started for Bob's first endpoint fails after Bob has left and registered again; it
  closes the first endpoint a second time and deletes Bob's new entry, whose endpoint 2
  stays open. \<open>Unregister\<close> and the eviction of an entry that was not replaced do close
  what they remove.
\<close>

theorem reregister_leaves_old_endpoint_open:
  "map_option clients (run g [EvRegister Alice True] NewChatServer) = Some [(''Alice'', 0)] \<and>
   map_option (\<lambda>s. (clients s, closed s))
     (run g [EvRegister Alice True, EvRegister Alice True] NewChatServer)
     = Some ([(''Alice'', 1)], []) \<and>
   map_option (\<lambda>s. (clients s, tasks s, closed s))
     (run g [EvRegister Alice True, EvRegister Bob True, EvChanSend 0, EvRecv, EvFanout,
             EvUnregister Bob, EvRegister Bob True] NewChatServer)
     = Some ([(''Alice'', 0), (''Bob'', 2)],
             [(''Bob'', 1, \<lparr>Sender = ''Alice'', Text = ''User Alice joined''\<rparr>)], [1]) \<and>
   map_option (\<lambda>s. (clients s, tasks s, closed s))
     (run g [EvRegister Alice True, EvRegister Bob True, EvChanSend 0, EvRecv, EvFanout,
             EvUnregister Bob, EvRegister Bob True, EvDeliver 0 False] NewChatServer)
     = Some ([(''Alice'', 0)], [], [1, 1])"
  by (simp add: NewChatServer_def Register_def Unregister_def Let_def Alice_def Bob_def
      chan_send_def broadcaster_recv_def broadcaster_fanout_def deliver_def recipients_def
      remove_nth_def broadcast_cap_def)

subsection \<open>Recipients of one message\<close>



subsection \<open>The bounded channel\<close>

text \<open>
  Claim C9. The channel holds at most 100 messages in every reachable state. While it holds 100,
  no method standing at the channel send can move; as soon as it holds fewer, the send
  of any such method goes through, puts its message at the end of the channel and returns
  its reply, which is not an error. A full channel gets room when the broadcaster
  receives, which takes the oldest message only. No other step removes a message from the
  channel. Register, Unregister and Send do not touch the channel themselves: each leaves
  exactly one message with the channel send.
\<close>

theorem broadcast_queue_is_bounded_and_blocking:
  assumes "run g evs NewChatServer = Some s"
  shows "broadcast_cap = 100 \<and> length (broadcast s) \<le> 100 \<and>
         (length (broadcast s) = 100 \<longrightarrow> (\<forall>i. step g (EvChanSend i) s = None)) \<and>
         (\<forall>i. i < length (pending s) \<and> length (broadcast s) < 100 \<longrightarrow>
            (\<exists>s'. step g (EvChanSend i) s = Some s' \<and>
                   broadcast s' = broadcast s @ [fst (pending s ! i)] \<and>
                   pending s' = remove_nth i (pending s) \<and>
                   returned s' = returned s @ [snd (pending s ! i)] \<and>
                   \<not> is_error (snd (pending s ! i)))) \<and>
         (length (broadcast s) = 100 \<and> cur s = None \<longrightarrow>
            (\<exists>s'. step g EvRecv s = Some s' \<and> pending s' = pending s \<and>
                   length (broadcast s') = 99 \<and> broadcast s = the (cur s') # broadcast s')) \<and>
         (\<forall>e s'. step g e s = Some s' \<and> e \<noteq> EvRecv \<longrightarrow> prefix (broadcast s) (broadcast s')) \<and>
         broadcast (Register g rargs ok s) = broadcast s \<and>
         pending (Register g rargs True s) =
           pending s @ [(\<lparr>Sender = ID rargs, Text = ''User '' @ ID rargs @ '' joined''\<rparr>, Empty)] \<and>
         broadcast (Unregister g rargs s) = broadcast s \<and>
         pending (Unregister g rargs s) =
           pending s @ [(\<lparr>Sender = ID rargs, Text = ''User '' @ ID rargs @ '' left''\<rparr>, Empty)] \<and>
         broadcast (snd (Send g margs s)) = broadcast s \<and>
         pending (snd (Send g margs s)) = pending s @ [(margs, HistoryReply (fst (Send g margs s)))]"
proof -
  have inv: "server_inv s" using reachable_inv[OF assms] .
  have b: "length (broadcast s) \<le> 100" using inv by (simp add: server_inv_def broadcast_cap_def)
  have ok: "\<forall>p \<in> set (pending s). \<not> is_error (snd p)" using inv by (simp add: server_inv_def)
  have 1: "length (broadcast s) = 100 \<longrightarrow> (\<forall>i. step g (EvChanSend i) s = None)"
    by (simp add: chan_send_def broadcast_cap_def)
  have 2: "\<forall>i. i < length (pending s) \<and> length (broadcast s) < 100 \<longrightarrow>
            (\<exists>s'. step g (EvChanSend i) s = Some s' \<and>
                   broadcast s' = broadcast s @ [fst (pending s ! i)] \<and>
                   pending s' = remove_nth i (pending s) \<and>
                   returned s' = returned s @ [snd (pending s ! i)] \<and>
                   \<not> is_error (snd (pending s ! i)))"
    using ok by (simp add: chan_send_def broadcast_cap_def)
  have 3: "length (broadcast s) = 100 \<and> cur s = None \<longrightarrow>
            (\<exists>s'. step g EvRecv s = Some s' \<and> pending s' = pending s \<and>
                   length (broadcast s') = 99 \<and> broadcast s = the (cur s') # broadcast s')"
    by (cases "broadcast s") (auto simp: broadcaster_recv_def)
  have 4: "\<forall>e s'. step g e s = Some s' \<and> e \<noteq> EvRecv \<longrightarrow> prefix (broadcast s) (broadcast s')"
  proof (intro allI impI)
    fix e s' assume "step g e s = Some s' \<and> e \<noteq> EvRecv"
    then show "prefix (broadcast s) (broadcast s')"
      by (cases e)
        (auto simp: Register_def Unregister_def Send_def History_def Let_def case_prod_unfold
          chan_send_def broadcaster_fanout_def deliver_def
          split: if_splits option.splits prod.splits)
  qed
  have 5: "broadcast (Register g rargs ok s) = broadcast s"
    "pending (Register g rargs True s) =
           pending s @ [(\<lparr>Sender = ID rargs, Text = ''User '' @ ID rargs @ '' joined''\<rparr>, Empty)]"
    "broadcast (Unregister g rargs s) = broadcast s"
    "pending (Unregister g rargs s) =
           pending s @ [(\<lparr>Sender = ID rargs, Text = ''User '' @ ID rargs @ '' left''\<rparr>, Empty)]"
    "broadcast (snd (Send g margs s)) = broadcast s"
    "pending (snd (Send g margs s)) = pending s @ [(margs, HistoryReply (fst (Send g margs s)))]"
    by (simp_all add: Register_def Unregister_def Send_def Let_def case_prod_unfold
        split: option.splits)
  show ?thesis using b 1 2 3 4 5 by (simp add: broadcast_cap_def)
qed

text \<open>With a hundred messages on the channel, the send of \<open>hi\<close> cannot move; after the broadcaster has received one message it goes through.\<close>

theorem broadcast_queue_is_bounded_and_blocking_witness:
  "run doubling (flood @ [EvSend hi]) NewChatServer \<noteq> None \<and>
   length (broadcast (the (run doubling (flood @ [EvSend hi]) NewChatServer))) = 100 \<and>
   step doubling (EvChanSend 0) (the (run doubling (flood @ [EvSend hi]) NewChatServer)) = None \<and>
   run doubling (flood @ [EvSend hi, EvRecv]) NewChatServer \<noteq> None \<and>
   length (broadcast (the (run doubling (flood @ [EvSend hi, EvRecv]) NewChatServer))) = 99 \<and>
   step doubling (EvChanSend 0) (the (run doubling (flood @ [EvSend hi, EvRecv]) NewChatServer))
     \<noteq> None \<and>
   last (broadcast (the (step doubling (EvChanSend 0)
     (the (run doubling (flood @ [EvSend hi, EvRecv]) NewChatServer))))) = hi"
proof -
  from flood_send obtain s where s: "run doubling (flood @ [EvSend hi]) NewChatServer = Some s"
    "length (broadcast s) = 100" "cur s = None" "length (pending s) = 1" "fst (pending s ! 0) = hi"
    by blast
  note A = broadcast_queue_is_bounded_and_blocking[OF s(1), of Alice True hi]
  from A s(2) have blocked: "step doubling (EvChanSend 0) s = None" by blast
  from A s(2,3) obtain s1 where s1: "step doubling EvRecv s = Some s1" "pending s1 = pending s"
    "length (broadcast s1) = 99"
    by blast
  have "run doubling ((flood @ [EvSend hi]) @ [EvRecv]) NewChatServer = Some s1"
    unfolding run_append[of doubling "flood @ [EvSend hi]"] s(1) using s1(1) by simp
  then have r1: "run doubling (flood @ [EvSend hi, EvRecv]) NewChatServer = Some s1"
    by simp
  note B = broadcast_queue_is_bounded_and_blocking[OF r1, of Alice True hi]
  have "0 < length (pending s1) \<and> length (broadcast s1) < 100" using s1(2,3) s(4) by simp
  with B obtain s2 where s2: "step doubling (EvChanSend 0) s1 = Some s2"
    "broadcast s2 = broadcast s1 @ [fst (pending s1 ! 0)]"
    by blast
  have "last (broadcast s2) = hi" using s2(2) s1(2) s(5) by simp
  then show ?thesis using blocked s1(3) s2(1) by (simp add: s(1,2) r1)
qed

subsection \<open>Unregister of any id\<close>

text \<open>
  Claim C10. For every id, \<open>Unregister\<close> appends \<open>User id left\<close> to the history and stands at the
  channel send with the message of sender id and that text, and with the empty reply. If
  the id is not in the registry, the registry and the closed endpoints are unchanged; if
  it is, its entry is deleted and its endpoint closed. There is a schedule after which the
  call has put the message on the channel and returned without error.
\<close>

theorem Unregister_of_any_id:
  assumes "run g evs NewChatServer = Some s"
    and "s' = Unregister g args s"
    and "leaveMsg = ''User '' @ ID args @ '' left''"
  shows "history s' = history s @ [leaveMsg] \<and>
         pending s' = pending s @ [(\<lparr>Sender = ID args, Text = leaveMsg\<rparr>, Empty)] \<and>
         returned s' = returned s \<and> broadcast s' = broadcast s \<and>
         (map_of (clients s) (ID args) = None \<longrightarrow> clients s' = clients s \<and> closed s' = closed s) \<and>
         (\<forall>cli. map_of (clients s) (ID args) = Some cli \<longrightarrow>
            clients s' = AList.delete (ID args) (clients s) \<and> closed s' = closed s @ [cli]) \<and>
         (\<exists>s''. run g (drain s' @ [EvChanSend (length (pending s))]) s' = Some s'' \<and>
                returned s'' = returned s @ [Empty] \<and>
                last (broadcast s'') = \<lparr>Sender = ID args, Text = leaveMsg\<rparr> \<and>
                clients s'' = clients s' \<and> history s'' = history s')"
proof -
  have inv: "server_inv s" using reachable_inv[OF assms(1)] .
  then have w: "wf s" by (simp add: server_inv_def)
  have inv': "server_inv s'"
    using step_server_inv[OF inv, of g "EvUnregister args" s'] assms(2) by simp
  have b: "length (broadcast s') \<le> broadcast_cap" using inv' by (simp add: server_inv_def)
  have h: "history s' = history s @ [leaveMsg]"
    using Unregister_props(2)[OF w, of g args] assms(2,3) by simp
  have p: "pending s' = pending s @ [(\<lparr>Sender = ID args, Text = leaveMsg\<rparr>, Empty)]"
    "returned s' = returned s" "broadcast s' = broadcast s"
    "map_of (clients s) (ID args) = None \<longrightarrow> clients s' = clients s \<and> closed s' = closed s"
    "\<forall>cli. map_of (clients s) (ID args) = Some cli \<longrightarrow>
            clients s' = AList.delete (ID args) (clients s) \<and> closed s' = closed s @ [cli]"
    by (simp_all add: assms(2,3) Unregister_def Let_def split: option.splits)
  have i: "length (pending s) < length (pending s')" using p(1) by simp
  from drain_then_send[OF b i, of g] obtain s'' where
    s'': "run g (drain s' @ [EvChanSend (length (pending s))]) s' = Some s''"
      "returned s'' = returned s' @ [snd (pending s' ! length (pending s))]"
      "last (broadcast s'') = fst (pending s' ! length (pending s))"
      "store s'' = store s'" "msgs s'' = msgs s'" "clients s'' = clients s'"
    by blast
  have "returned s'' = returned s @ [Empty]" using s''(2) p(1,2) by simp
  moreover have "last (broadcast s'') = \<lparr>Sender = ID args, Text = leaveMsg\<rparr>"
    using s''(3) p(1) by simp
  moreover have "history s'' = history s'" using s''(4,5) by (simp add: history_def)
  ultimately show ?thesis using h p s''(1,6) by blast
qed

text \<open>Carol was never registered: the registry is unchanged and the leave notice is recorded. Alice is registered: that entry goes and endpoint 0 is closed.\<close>

theorem Unregister_of_any_id_witness:
  "run doubling joined NewChatServer \<noteq> None \<and>
   map_of (clients (the (run doubling joined NewChatServer))) (ID Carol) = None \<and>
   clients (Unregister doubling Carol (the (run doubling joined NewChatServer)))
     = [(''Alice'', 0), (''Bob'', 1)] \<and>
   history (Unregister doubling Carol (the (run doubling joined NewChatServer)))
     = [''User Alice joined'', ''User Bob joined'', ''User Carol left''] \<and>
   pending (Unregister doubling Carol (the (run doubling joined NewChatServer)))
     = [(\<lparr>Sender = ''Carol'', Text = ''User Carol left''\<rparr>, Empty)] \<and>
   map_of (clients (the (run doubling joined NewChatServer))) (ID Alice) = Some 0 \<and>
   clients (Unregister doubling Alice (the (run doubling joined NewChatServer))) = [(''Bob'', 1)] \<and>
   closed (Unregister doubling Alice (the (run doubling joined NewChatServer))) = [0]"
proof -
  let ?s = "the (run doubling joined NewChatServer)"
  have n: "run doubling joined NewChatServer \<noteq> None" by (simp add: joined_runs)
  then have h: "run doubling joined NewChatServer = Some ?s" by simp
  have v: "history ?s = [''User Alice joined'', ''User Bob joined'']"
    "clients ?s = [(''Alice'', 0), (''Bob'', 1)]" "pending ?s = []" "closed ?s = []"
    by (simp_all add: joined_runs history_def elems_def)
  have m: "map_of (clients ?s) (ID Carol) = None" "map_of (clients ?s) (ID Alice) = Some 0"
    by (simp_all add: v Carol_def Alice_def)
  from Unregister_of_any_id[OF h refl refl, of Carol] Unregister_of_any_id[OF h refl refl, of Alice]
    v m n
  show ?thesis by (simp add: Carol_def Alice_def)
qed


end
